theory Spec2Isabelle
  imports Complex_Main
begin

section \<open>Data model\<close>

text \<open>
  A 2-D NumPy array is a list of rows. All arrays the program handles are rectangular;
  two arrays have the same shape when their rows have the same lengths.

  Pixel samples read from a TIFF file are finite numbers (\<open>real\<close>). A float64 value the
  program computes can also be one of the three non-finite values of IEEE arithmetic,
  which NumPy produces without raising (\<open>0/0\<close> is NaN, the mean of an empty selection is
  NaN). Rounding of float64 is not modelled: arithmetic on finite values is exact.
  Label values are Python/NumPy integers; an int32 label never overflows, since a label is
  at most the number of pixels, so labels are \<open>int\<close>.
\<close>

datatype float64 = Num real | PInf | NInf | NaN

datatype exn = ValueError | IndexError | TypeError | UnboundLocalError

type_synonym image = "real list list"
type_synonym fimage = "float64 list list"
type_synonym label_map = "int list list"
type_synonym mask = "bool list list"

definition shape :: "'a list list \<Rightarrow> nat \<times> nat" where
  "shape a = (length a, (case a of [] \<Rightarrow> 0 | row # _ \<Rightarrow> length row))"

definition same_shape :: "'a list list \<Rightarrow> 'b list list \<Rightarrow> bool" where
  "same_shape a b = (map length a = map length b)"

text \<open>What a call of one of the two entry points leaves behind: the exception its
  \<open>except Exception\<close> clause caught and logged (if any), and what reached the caller, a
  returned value or a raised exception.\<close>

record 'a outcome =
  caught :: "exn option"
  returned :: "exn + 'a"

section \<open>float64 arithmetic as NumPy performs it\<close>

definition np_div :: "real \<Rightarrow> real \<Rightarrow> float64" where
  "np_div a b =
     (if b \<noteq> 0 then Num (a / b)
      else if a = 0 then NaN
      else if 0 < a then PInf else NInf)"

fun np_add :: "float64 \<Rightarrow> float64 \<Rightarrow> float64" where
  "np_add (Num a) (Num b) = Num (a + b)"
| "np_add NaN _ = NaN"
| "np_add _ NaN = NaN"
| "np_add PInf NInf = NaN"
| "np_add NInf PInf = NaN"
| "np_add PInf _ = PInf"
| "np_add _ PInf = PInf"
| "np_add NInf _ = NInf"
| "np_add _ NInf = NInf"

fun np_div_count :: "float64 \<Rightarrow> nat \<Rightarrow> float64" where
  "np_div_count (Num s) n = np_div s (real n)"
| "np_div_count PInf n = PInf"
| "np_div_count NInf n = NInf"
| "np_div_count NaN n = NaN"

definition np_mean :: "float64 list \<Rightarrow> float64" where
  \<comment> \<open>\<open>np.mean\<close>: the sum divided by the count; on an empty array \<open>0.0 / 0\<close>, that is NaN
      (with a RuntimeWarning, which is not an exception).\<close>
  "np_mean xs = np_div_count (fold (\<lambda>x s. np_add s x) xs (Num 0)) (length xs)"

fun np_gt :: "float64 \<Rightarrow> real \<Rightarrow> bool" where
  \<comment> \<open>\<open>x > t\<close> for a finite \<open>t\<close>; every comparison with NaN is false.\<close>
  "np_gt (Num x) t = (t < x)"
| "np_gt PInf t = True"
| "np_gt NInf t = False"
| "np_gt NaN t = False"

section \<open>The scikit-image primitives the program calls\<close>

text \<open>
  Gaussian smoothing, local-minima detection, connected-component labelling and the
  watershed are code of scikit-image, not of this repository. The program is modelled
  over any implementation of them; each may raise.
\<close>

record skimage =
  sk_gaussian :: "fimage \<Rightarrow> real \<Rightarrow> exn + fimage"
  sk_local_minima :: "fimage \<Rightarrow> exn + mask"
  sk_label :: "mask \<Rightarrow> exn + label_map"
  sk_watershed :: "fimage \<Rightarrow> label_map \<Rightarrow> mask \<Rightarrow> exn + label_map"

text \<open>What the documentation of \<open>watershed\<close> promises about its \<open>mask\<close> argument: the
  output has the shape of the mask (which must be that of the image), and only points at
  which the mask is true are labelled.\<close>

definition watershed_contract :: "skimage \<Rightarrow> bool" where
  "watershed_contract P =
     (\<forall>img markers m out. sk_watershed P img markers m = Inr out \<longrightarrow>
        same_shape out m \<and>
        (\<forall>r < length m. \<forall>c < length (m ! r). \<not> m ! r ! c \<longrightarrow> out ! r ! c = 0))"

subsection \<open>regionprops\<close>

record region =
  label :: int
  coords :: "(nat \<times> nat) list"
  mean_intensity :: float64

definition region_labels :: "label_map \<Rightarrow> int list" where
  \<comment> \<open>\<open>find_objects\<close> skips values \<open>\<le> 0\<close>; regions come in ascending label order.\<close>
  "region_labels lm = sort (remdups (filter (\<lambda>v. 0 < v) (concat lm)))"

definition region_coords :: "label_map \<Rightarrow> int \<Rightarrow> (nat \<times> nat) list" where
  \<comment> \<open>\<open>region.coords\<close>: the (row, col) of every pixel carrying the label, row-major.\<close>
  "region_coords lm l =
     concat (map (\<lambda>r. map (\<lambda>c. (r, c)) (filter (\<lambda>c. lm ! r ! c = l) [0..<length (lm ! r)]))
                 [0..<length lm])"

definition regionprops :: "label_map \<Rightarrow> fimage option \<Rightarrow> exn + region list" where
  \<comment> \<open>\<open>find_objects\<close> first takes the maximum of the label array, which raises
      ValueError on a zero-size array. Each region's constructor checks the intensity
      image's shape and raises ValueError on a mismatch (so only when there is a region).
      Without an intensity image \<open>mean_intensity\<close> is not available; the program does
      not read it then.\<close>
  "regionprops lm intensity_image =
     (if concat lm = [] then Inl ValueError
      else case intensity_image of
        None \<Rightarrow>
          Inr (map (\<lambda>l. \<lparr>label = l, coords = region_coords lm l, mean_intensity = NaN\<rparr>)
                   (region_labels lm))
      | Some im \<Rightarrow>
          if region_labels lm \<noteq> [] \<and> \<not> same_shape im lm then Inl ValueError
          else Inr (map (\<lambda>l. \<lparr>label = l, coords = region_coords lm l,
                               mean_intensity =
                                 np_mean (map (\<lambda>(r, c). im ! r ! c) (region_coords lm l))\<rparr>)
                        (region_labels lm)))"

subsection \<open>relabel\_sequential\<close>

definition map_array :: "int list \<Rightarrow> int list \<Rightarrow> int \<Rightarrow> int" where
  \<comment> \<open>What \<open>map_array(label_field, in_vals, out_vals)\<close> puts in place of the value
      \<open>v\<close>. Every value of the array is among \<open>in_vals\<close>; the \<open>None\<close> case never arises.\<close>
  "map_array in_vals out_vals v =
     (case map_of (zip in_vals out_vals) v of Some w \<Rightarrow> w | None \<Rightarrow> 0)"

definition relabel_sequential :: "label_map \<Rightarrow> exn + label_map" where
  \<comment> \<open>With the default \<open>offset=1\<close>. \<open>np.min\<close> of an empty array raises ValueError, and so
      does a negative label.\<close>
  "relabel_sequential label_field =
     (if concat label_field = [] then Inl ValueError
      else if Min (set (concat label_field)) < 0 then Inl ValueError
      else
        let in_vals = sort (remdups (concat label_field));
            out_vals = (if hd in_vals = 0
                        then 0 # map int [1..<length in_vals]
                        else map int [1..<length in_vals + 1])
        in Inr (map (map (map_array in_vals out_vals)) label_field))"

section \<open>segment\_intensity\_batch.py\<close>

definition zeros_like :: "'a list list \<Rightarrow> 'b \<Rightarrow> 'b list list" where
  \<comment> \<open>\<open>np.zeros_like(a, dtype=...)\<close>; the second argument is the zero of the dtype.\<close>
  "zeros_like a z = map (map (\<lambda>_. z)) a"

definition assign_where :: "label_map \<Rightarrow> int \<Rightarrow> label_map \<Rightarrow> label_map" where
  \<comment> \<open>\<open>labels[outlines == l] = l\<close>; \<open>labels\<close> has the shape of \<open>outlines\<close>.\<close>
  "assign_where outlines l labels =
     map2 (\<lambda>orow lrow. map2 (\<lambda>v old. if v = l then l else old) orow lrow) outlines labels"

definition threshold_filter :: "label_map \<Rightarrow> region list \<Rightarrow> real \<Rightarrow> label_map" where
  \<comment> \<open>The loop over the regions of \<open>outlines\<close>, from \<open>labels = np.zeros_like(outlines)\<close>.\<close>
  "threshold_filter outlines regions threshold =
     fold (\<lambda>region labels.
             if np_gt (mean_intensity region) threshold
             then assign_where outlines (label region) labels
             else labels)
          regions (zeros_like outlines 0)"

definition watershed_step ::
  "skimage \<Rightarrow> fimage \<Rightarrow> real \<Rightarrow> real \<Rightarrow> exn + (fimage \<times> fimage \<times> label_map \<times> label_map)" where
  \<comment> \<open>The two Gaussian passes, the seeds and the watershed, as both scripts run them on
      their float64 image; the result is (spot\_blurred, outline\_blurred, spots, outlines).\<close>
  "watershed_step P fimg spot_sigma outline_sigma =
     (case sk_gaussian P fimg spot_sigma of Inl e \<Rightarrow> Inl e | Inr spot_blurred \<Rightarrow>
     (case sk_gaussian P fimg
             (if outline_sigma \<noteq> spot_sigma then outline_sigma else spot_sigma) of
        Inl e \<Rightarrow> Inl e | Inr outline_blurred \<Rightarrow>
     (case sk_local_minima P spot_blurred of Inl e \<Rightarrow> Inl e | Inr minima \<Rightarrow>
     (case sk_label P minima of Inl e \<Rightarrow> Inl e | Inr spots \<Rightarrow>
     (case sk_watershed P outline_blurred spots (map (map (\<lambda>x. np_gt x 0)) fimg) of
        Inl e \<Rightarrow> Inl e
      | Inr outlines \<Rightarrow> Inr (spot_blurred, outline_blurred, spots, outlines))))))"

definition segmentation_try :: "skimage \<Rightarrow> image \<Rightarrow> real \<Rightarrow> real \<Rightarrow> real \<Rightarrow> exn + label_map" where
  \<comment> \<open>The body of the \<open>try\<close> of \<open>cell_segmentation\<close>: \<open>Inr\<close> is the value bound to
      \<open>filtered_labels\<close>, \<open>Inl\<close> the exception that left the body. The source's
      \<open>image\<close> is \<open>img\<close> before and \<open>fimg\<close> after the cast to float64.\<close>
  "segmentation_try P img spot_sigma outline_sigma threshold =
     (let fimg = map (map Num) img in
      case watershed_step P fimg spot_sigma outline_sigma of
        Inl e \<Rightarrow> Inl e
      | Inr (spot_blurred, outline_blurred, spots, outlines) \<Rightarrow>
     (case regionprops outlines (Some fimg) of Inl e \<Rightarrow> Inl e | Inr regions \<Rightarrow>
        relabel_sequential (threshold_filter outlines regions threshold)))"

definition cell_segmentation ::
  "skimage \<Rightarrow> image \<Rightarrow> real \<Rightarrow> real \<Rightarrow> real \<Rightarrow> label_map outcome" where
  \<comment> \<open>An exception in the body is logged; \<open>return filtered_labels\<close> then reads a name that
      was never bound and raises UnboundLocalError.\<close>
  "cell_segmentation P img spot_sigma outline_sigma threshold =
     (case segmentation_try P img spot_sigma outline_sigma threshold of
        Inr filtered_labels \<Rightarrow> \<lparr>caught = None, returned = Inr filtered_labels\<rparr>
      | Inl e \<Rightarrow> \<lparr>caught = Some e, returned = Inl UnboundLocalError\<rparr>)"

definition in_bounds :: "'a list list \<Rightarrow> nat \<times> nat \<Rightarrow> bool" where
  "in_bounds a = (\<lambda>(r, c). r < length a \<and> c < length (a ! r))"

definition set_pixels :: "(nat \<times> nat) list \<Rightarrow> float64 \<Rightarrow> fimage \<Rightarrow> exn + fimage" where
  \<comment> \<open>\<open>a[rows, cols] = v\<close>: IndexError when an index is out of bounds, else every indexed
      pixel is set.\<close>
  "set_pixels cs v a =
     (if list_all (in_bounds a) cs
      then Inr (fold (\<lambda>(r, c) b. b[r := (b ! r)[c := v]]) cs a)
      else Inl IndexError)"

fun mark_regions :: "region list \<Rightarrow> fimage \<Rightarrow> exn + fimage" where
  "mark_regions [] perimeters = Inr perimeters"
| "mark_regions (region # rest) perimeters =
     (case set_pixels (coords region) (Num 1) perimeters of
        Inl e \<Rightarrow> Inl e
      | Inr perimeters' \<Rightarrow> mark_regions rest perimeters')"

definition boolean_select :: "'a list list \<Rightarrow> mask \<Rightarrow> 'a list" where
  \<comment> \<open>\<open>image[m]\<close> for a boolean array \<open>m\<close> of the shape of \<open>image\<close>: the selected pixels,
      row-major.\<close>
  "boolean_select a m =
     concat (map2 (\<lambda>row mrow. map fst (filter snd (zip row mrow))) a m)"

definition quantify_try :: "image \<Rightarrow> label_map \<Rightarrow> exn + float64" where
  "quantify_try img labels =
     (let perimeters = zeros_like img (Num 0) in
      case regionprops labels None of Inl e \<Rightarrow> Inl e | Inr regions \<Rightarrow>
     (case mark_regions regions perimeters of
        Inl e \<Rightarrow> Inl e
      | Inr perimeters \<Rightarrow>
          Inr (np_mean (map Num
                 (boolean_select img (map (map (\<lambda>p. np_gt p 0)) perimeters))))))"

definition quantify_edge_intensity :: "image \<Rightarrow> label_map \<Rightarrow> float64 outcome" where
  "quantify_edge_intensity img labels =
     (case quantify_try img labels of
        Inr edge_intensity \<Rightarrow> \<lparr>caught = None, returned = Inr edge_intensity\<rparr>
      | Inl e \<Rightarrow> \<lparr>caught = Some e, returned = Inl UnboundLocalError\<rparr>)"

section \<open>segment\_intensity\_demo.py\<close>

definition normalize :: "image \<Rightarrow> exn + fimage" where
  \<comment> \<open>\<open>(a - a.min()) / (a.max() - a.min())\<close>, elementwise. \<open>min\<close> of an empty array
      raises ValueError; a zero divisor does not raise.\<close>
  "normalize original_image =
     (if concat original_image = [] then Inl ValueError
      else
        let mn = Min (set (concat original_image));
            mx = Max (set (concat original_image))
        in Inr (map (map (\<lambda>x. np_div (x - mn) (mx - mn))) original_image))"

definition demo_segmentation_try ::
  "skimage \<Rightarrow> image \<Rightarrow> real \<Rightarrow> real \<Rightarrow> real \<Rightarrow>
   exn + ((label_map \<times> fimage \<times> fimage \<times> label_map \<times> label_map) \<times> exn option)" where
  \<comment> \<open>The body of the \<open>try\<close> of the demo's \<open>cell_segmentation\<close>. \<open>Inl\<close>: an exception
      left the body before \<open>filtered_labels\<close> was bound. \<open>Inr\<close>: the five names the
      function returns, and the exception raised after they were bound, which can only be
      the ValueError of \<open>min(intensities)\<close> on an empty list.\<close>
  "demo_segmentation_try P img spot_sigma outline_sigma threshold =
     (case normalize img of Inl e \<Rightarrow> Inl e | Inr normalized_image \<Rightarrow>
     (case watershed_step P normalized_image spot_sigma outline_sigma of
        Inl e \<Rightarrow> Inl e
      | Inr (spot_blurred, outline_blurred, spots, outlines) \<Rightarrow>
     (case regionprops outlines (Some normalized_image) of Inl e \<Rightarrow> Inl e | Inr regions \<Rightarrow>
        let intensities = map mean_intensity regions in
       (case relabel_sequential (threshold_filter outlines regions threshold) of
          Inl e \<Rightarrow> Inl e
        | Inr filtered_labels \<Rightarrow>
            Inr ((filtered_labels, spot_blurred, outline_blurred, spots, outlines),
                 if intensities = [] then Some ValueError else None)))))"

definition demo_cell_segmentation ::
  "skimage \<Rightarrow> image \<Rightarrow> real \<Rightarrow> real \<Rightarrow> real \<Rightarrow>
   (label_map \<times> fimage \<times> fimage \<times> label_map \<times> label_map) outcome" where
  \<comment> \<open>The \<open>except\<close> clause logs whatever was raised; the \<open>return\<close> succeeds when the five
      names are bound and raises UnboundLocalError otherwise.\<close>
  "demo_cell_segmentation P img spot_sigma outline_sigma threshold =
     (case demo_segmentation_try P img spot_sigma outline_sigma threshold of
        Inr (result, late) \<Rightarrow> \<lparr>caught = late, returned = Inr result\<rparr>
      | Inl e \<Rightarrow> \<lparr>caught = Some e, returned = Inl UnboundLocalError\<rparr>)"

section \<open>Notions of the specification\<close>

definition positive_positions :: "label_map \<Rightarrow> (nat \<times> nat) list" where
  \<comment> \<open>The pixels that belong to some positive label, row-major.\<close>
  "positive_positions labels =
     concat (map (\<lambda>r. map (\<lambda>c. (r, c)) (filter (\<lambda>c. 0 < labels ! r ! c) [0..<length (labels ! r)]))
                 [0..<length labels])"

definition mean_over :: "image \<Rightarrow> (nat \<times> nat) list \<Rightarrow> real" where
  \<comment> \<open>The arithmetic mean of the image over a list of pixel positions.\<close>
  "mean_over img ps = sum_list (map (\<lambda>(r, c). img ! r ! c) ps) / real (length ps)"

definition region_mean :: "label_map \<Rightarrow> fimage \<Rightarrow> int \<Rightarrow> float64" where
  \<comment> \<open>The mean intensity, under an intensity image, of the pixels carrying a label.\<close>
  "region_mean lm im l = np_mean (map (\<lambda>(r, c). im ! r ! c) (region_coords lm l))"

definition surviving :: "label_map \<Rightarrow> fimage \<Rightarrow> real \<Rightarrow> label_map" where
  \<comment> \<open>The watershed output with every region zeroed whose mean intensity, under an
      intensity image, does not exceed the threshold.\<close>
  "surviving outlines im threshold =
     map (map (\<lambda>v. if 0 < v \<and> np_gt (region_mean outlines im v) threshold then v else 0)) outlines"

definition support :: "label_map \<Rightarrow> mask" where
  \<comment> \<open>Which pixels carry a positive label.\<close>
  "support labels = map (map (\<lambda>v. 0 < v)) labels"

definition positive_values :: "label_map \<Rightarrow> int set" where
  "positive_values lm = {v \<in> set (concat lm). 0 < v}"

section \<open>A stand-in for scikit-image\<close>

text \<open>
  To run the program on a concrete image the primitives must be instantiated. This
  stand-in does no smoothing, labels a given seed map, and floods nothing: its watershed
  keeps each marker on its own pixel where the mask is true. It meets the contract of
  \<open>watershed\<close> stated above, and raises ValueError on markers of the wrong shape as
  scikit-image does.
\<close>

definition stub_skimage :: "label_map \<Rightarrow> skimage" where
  "stub_skimage seeds =
     \<lparr>sk_gaussian = (\<lambda>a sigma. Inr a),
      sk_local_minima = (\<lambda>a. Inr (map (map (\<lambda>x. False)) a)),
      sk_label = (\<lambda>m. Inr seeds),
      sk_watershed = (\<lambda>a markers m.
         if same_shape markers m
         then Inr (map2 (\<lambda>lrow mrow. map2 (\<lambda>l b. if b then l else 0) lrow mrow) markers m)
         else Inl ValueError)\<rparr>"

section \<open>Arrays\<close>

lemma fold_set_pixel_shape:
  "map length (fold (\<lambda>(r, c) b. b[r := (b ! r)[c := v]]) cs a) = map length a"
proof (induction cs arbitrary: a)
  case Nil
  show ?case by simp
next
  case (Cons p cs)
  obtain r c where p: "p = (r, c)" by (cases p)
  have "map length (a[r := (a ! r)[c := v]]) = map length a"
    by (cases "r < length a") (simp_all add: map_update list_update_same_conv list_update_beyond)
  then show ?case using Cons.IH [of "a[r := (a ! r)[c := v]]"] by (simp add: p)
qed

lemma fold_set_pixel_nth:
  "r < length a \<Longrightarrow> c < length (a ! r) \<Longrightarrow>
   fold (\<lambda>(r, c) b. b[r := (b ! r)[c := v]]) cs a ! r ! c =
     (if (r, c) \<in> set cs then v else a ! r ! c)"
proof (induction cs arbitrary: a)
  case Nil
  show ?case by simp
next
  case (Cons p cs)
  obtain r' c' where p: "p = (r', c')" by (cases p)
  let ?a = "a[r' := (a ! r')[c' := v]]"
  have len: "r < length ?a" "c < length (?a ! r)"
    using Cons.prems by (cases "r = r'"; simp)+
  have step: "?a ! r ! c = (if (r, c) = (r', c') then v else a ! r ! c)"
    using Cons.prems by (cases "r = r'"; cases "c = c'"; simp)
  show ?case using Cons.IH [OF len] step by (auto simp: p)
qed

lemma set_region_coords:
  "set (region_coords lm l) = {(r, c). r < length lm \<and> c < length (lm ! r) \<and> lm ! r ! c = l}"
  by (auto simp: region_coords_def)

lemma set_region_labels: "set (region_labels lm) = {v \<in> set (concat lm). 0 < v}"
  by (auto simp: region_labels_def)


lemma in_bounds_shape: "map length a = map length b \<Longrightarrow> in_bounds a = in_bounds b"
proof -
  assume eq: "map length a = map length b"
  have len: "length a = length b" using eq by (rule map_eq_imp_length_eq)
  have "\<And>r. r < length a \<Longrightarrow> length (a ! r) = length (b ! r)"
    using eq len by (metis nth_map)
  then show ?thesis using len by (auto simp: in_bounds_def fun_eq_iff)
qed

lemma nth_shape: "map length a = map length b \<Longrightarrow> r < length a \<Longrightarrow> length (a ! r) = length (b ! r)"
  by (metis nth_map map_eq_imp_length_eq)

lemma mark_regions_ok:
  "\<forall>reg \<in> set regions. list_all (in_bounds per) (coords reg) \<Longrightarrow>
   \<exists>per'. mark_regions regions per = Inr per' \<and> map length per' = map length per \<and>
     (\<forall>r c. r < length per \<longrightarrow> c < length (per ! r) \<longrightarrow>
        per' ! r ! c = (if \<exists>reg \<in> set regions. (r, c) \<in> set (coords reg) then Num 1 else per ! r ! c))"
proof (induction regions arbitrary: per)
  case Nil
  show ?case by simp
next
  case (Cons reg regions)
  define p where "p = fold (\<lambda>(r, c) b. b[r := (b ! r)[c := Num 1]]) (coords reg) per"
  have sp: "set_pixels (coords reg) (Num 1) per = Inr p"
    using Cons.prems by (simp add: set_pixels_def p_def)
  have sh: "map length p = map length per"
    unfolding p_def by (rule fold_set_pixel_shape)
  have "\<forall>reg \<in> set regions. list_all (in_bounds p) (coords reg)"
    using Cons.prems in_bounds_shape [OF sh] by simp
  from Cons.IH [OF this] obtain per' where
    m: "mark_regions regions p = Inr per'" and
    l: "map length per' = map length p" and
    n: "\<And>r c. r < length p \<Longrightarrow> c < length (p ! r) \<Longrightarrow>
        per' ! r ! c = (if \<exists>reg \<in> set regions. (r, c) \<in> set (coords reg) then Num 1 else p ! r ! c)"
    by blast
  have px: "per' ! r ! c = (if \<exists>g \<in> set (reg # regions). (r, c) \<in> set (coords g) then Num 1 else per ! r ! c)"
    if rc: "r < length per" "c < length (per ! r)" for r c
  proof -
    have r': "r < length p" using rc sh by (metis map_eq_imp_length_eq)
    have c': "c < length (p ! r)" using rc nth_shape [OF sh r'] by simp
    have a: "per' ! r ! c = (if \<exists>reg \<in> set regions. (r, c) \<in> set (coords reg) then Num 1 else p ! r ! c)"
      by (rule n [OF r' c'])
    have b: "p ! r ! c = (if (r, c) \<in> set (coords reg) then Num 1 else per ! r ! c)"
      unfolding p_def by (rule fold_set_pixel_nth [OF rc])
    show ?thesis by (simp add: a b)
  qed
  have mr: "mark_regions (reg # regions) per = Inr per'" by (simp add: sp m)
  show ?case
  proof (intro exI conjI allI impI)
    show "mark_regions (reg # regions) per = Inr per'" by (rule mr)
    show "map length per' = map length per" using l sh by simp
  next
    fix r c assume "r < length per" "c < length (per ! r)"
    then show "per' ! r ! c =
        (if \<exists>g \<in> set (reg # regions). (r, c) \<in> set (coords g) then Num 1 else per ! r ! c)"
      by (rule px)
  qed
qed

lemma np_sum_Num: "fold (\<lambda>x s. np_add s x) (map Num xs) (Num a) = Num (a + sum_list xs)"
  by (induction xs arbitrary: a) (simp_all add: add.assoc)

lemma np_mean_Num:
  "np_mean (map Num xs) = (if xs = [] then NaN else Num (sum_list xs / real (length xs)))"
  by (simp add: np_mean_def np_sum_Num np_div_def)

lemma zip_as_nth:
  "length xs = length ys \<Longrightarrow> zip xs ys = map (\<lambda>i. (xs ! i, ys ! i)) [0..<length ys]"
  by (rule nth_equalityI) simp_all

lemma select_row:
  "length row = length mrow \<Longrightarrow>
   map fst (filter snd (zip row mrow)) = map (\<lambda>c. row ! c) (filter (\<lambda>c. mrow ! c) [0..<length mrow])"
  by (simp add: zip_as_nth filter_map comp_def)

lemma boolean_select_positions:
  assumes "map length a = map length m"
  shows "boolean_select a m =
     map (\<lambda>(r, c). a ! r ! c)
       (concat (map (\<lambda>r. map (\<lambda>c. (r, c)) (filter (\<lambda>c. m ! r ! c) [0..<length (m ! r)]))
                    [0..<length m]))"
proof -
  have len: "length a = length m" using assms by (rule map_eq_imp_length_eq)
  have rows: "\<And>r. r < length m \<Longrightarrow> length (a ! r) = length (m ! r)"
    using nth_shape [OF assms] len by simp
  have "boolean_select a m =
      concat (map (\<lambda>r. map fst (filter snd (zip (a ! r) (m ! r)))) [0..<length m])"
    by (simp add: boolean_select_def zip_as_nth [OF len] comp_def)
  also have "\<dots> = concat (map (\<lambda>r. map (\<lambda>c. a ! r ! c) (filter (\<lambda>c. m ! r ! c) [0..<length (m ! r)]))
                            [0..<length m])"
    by (rule arg_cong [where f = concat], rule map_cong) (simp_all add: select_row rows)
  finally show ?thesis by (simp add: map_concat comp_def)
qed


lemma mem_nonempty: "v \<in> set xs \<Longrightarrow> xs \<noteq> []"
  by auto

lemma regionprops_empty: "concat lm = [] \<Longrightarrow> regionprops lm im = Inl ValueError"
  by (simp add: regionprops_def)

lemma concat_empty_shape:
  "map length a = map length b \<Longrightarrow> concat a = [] \<longleftrightarrow> concat b = []"
proof -
  have e: "concat x = [] \<longleftrightarrow> (\<forall>n \<in> set (map length x). n = 0)" for x :: "'c list list"
    by (induction x) auto
  assume "map length a = map length b"
  then show ?thesis unfolding e [of a] e [of b] by simp
qed

lemma regionprops_None:
  "concat lm \<noteq> [] \<Longrightarrow> regionprops lm None =
     Inr (map (\<lambda>l. \<lparr>label = l, coords = region_coords lm l, mean_intensity = NaN\<rparr>) (region_labels lm))"
  by (simp add: regionprops_def)

lemma positive_label_iff:
  assumes "r < length lm" "c < length (lm ! r)"
  shows "(\<exists>l \<in> set (region_labels lm). lm ! r ! c = l) \<longleftrightarrow> 0 < lm ! r ! c"
proof -
  have "lm ! r ! c \<in> set (concat lm)" using assms by (metis nth_mem set_concat UN_I)
  then show ?thesis by (auto simp: set_region_labels)
qed

lemma quantify_try_eq:
  assumes sh: "same_shape img labels" and nonempty: "concat labels \<noteq> []"
  shows "quantify_try img labels =
     Inr (np_mean (map Num (map (\<lambda>(r, c). img ! r ! c) (positive_positions labels))))"
proof -
  define regs where "regs = map (\<lambda>l. \<lparr>label = l, coords = region_coords labels l, mean_intensity = NaN\<rparr>)
                                (region_labels labels)"
  define per0 :: fimage where "per0 = zeros_like img (Num 0)"
  have rp: "regionprops labels None = Inr regs"
    by (simp add: regionprops_None [OF nonempty] regs_def)
  have il: "map length img = map length labels" using sh by (simp add: same_shape_def)
  have p0: "map length per0 = map length labels" using il by (simp add: per0_def zeros_like_def comp_def)
  have len0: "length per0 = length labels" using p0 by (rule map_eq_imp_length_eq)
  have row0: "\<And>r. r < length labels \<Longrightarrow> length (per0 ! r) = length (labels ! r)"
    using nth_shape [OF p0] len0 by simp
  have z: "\<And>r c. r < length labels \<Longrightarrow> c < length (labels ! r) \<Longrightarrow> per0 ! r ! c = Num 0"
  proof -
    fix r c assume r: "r < length labels" and c: "c < length (labels ! r)"
    have "r < length img" using il r by (metis map_eq_imp_length_eq)
    moreover have "c < length (img ! r)" using nth_shape [OF il \<open>r < length img\<close>] c by simp
    ultimately show "per0 ! r ! c = Num 0" by (simp add: per0_def zeros_like_def)
  qed
  have inb: "\<forall>reg \<in> set regs. list_all (in_bounds per0) (coords reg)"
    by (auto simp: regs_def list_all_iff set_region_coords in_bounds_def len0 row0)
  from mark_regions_ok [OF inb] obtain per where
    m: "mark_regions regs per0 = Inr per" and
    l: "map length per = map length per0" and
    n: "\<And>r c. r < length per0 \<Longrightarrow> c < length (per0 ! r) \<Longrightarrow>
        per ! r ! c = (if \<exists>reg \<in> set regs. (r, c) \<in> set (coords reg) then Num 1 else per0 ! r ! c)"
    by blast
  define msk where "msk = map (map (\<lambda>p. np_gt p 0)) per"
  have pl: "map length per = map length labels" using l p0 by simp
  have lenp: "length per = length labels" using pl by (rule map_eq_imp_length_eq)
  have rowp: "\<And>r. r < length labels \<Longrightarrow> length (per ! r) = length (labels ! r)"
    using nth_shape [OF pl] lenp by simp
  have ml: "map length msk = map length labels" using pl by (simp add: msk_def comp_def)
  have lenm: "length msk = length labels" using ml by (rule map_eq_imp_length_eq)
  have rowm: "\<And>r. r < length labels \<Longrightarrow> length (msk ! r) = length (labels ! r)"
    using nth_shape [OF ml] lenm by simp
  have mv: "msk ! r ! c \<longleftrightarrow> 0 < labels ! r ! c"
    if r: "r < length labels" and c: "c < length (labels ! r)" for r c
  proof -
    have "per ! r ! c = (if \<exists>reg \<in> set regs. (r, c) \<in> set (coords reg) then Num 1 else per0 ! r ! c)"
      using n r c len0 row0 by simp
    moreover have "(\<exists>reg \<in> set regs. (r, c) \<in> set (coords reg)) \<longleftrightarrow> 0 < labels ! r ! c"
      using positive_label_iff [OF r c] r c by (auto simp: regs_def set_region_coords)
    moreover have "msk ! r ! c = np_gt (per ! r ! c) 0"
      using r c lenp rowp by (simp add: msk_def)
    ultimately show ?thesis using z [OF r c] by simp
  qed
  have pos: "concat (map (\<lambda>r. map (\<lambda>c. (r, c)) (filter (\<lambda>c. msk ! r ! c) [0..<length (msk ! r)]))
                    [0..<length msk]) = positive_positions labels"
    unfolding positive_positions_def lenm
  proof (rule arg_cong [where f = concat], rule map_cong)
    fix r assume "r \<in> set [0..<length labels]"
    then have r: "r < length labels" by simp
    have "filter (\<lambda>c. msk ! r ! c) [0..<length (labels ! r)] =
          filter (\<lambda>c. 0 < labels ! r ! c) [0..<length (labels ! r)]"
      by (rule filter_cong) (simp_all add: mv [OF r])
    then show "map (Pair r) (filter (\<lambda>c. msk ! r ! c) [0..<length (msk ! r)]) =
               map (Pair r) (filter (\<lambda>c. 0 < labels ! r ! c) [0..<length (labels ! r)])"
      by (simp add: rowm [OF r])
  qed simp
  have "boolean_select img msk = map (\<lambda>(r, c). img ! r ! c) (positive_positions labels)"
    using boolean_select_positions [of img msk] il ml pos by simp
  then show ?thesis
    using rp m by (simp add: quantify_try_def per0_def [symmetric] msk_def [symmetric])
qed

section \<open>Quantification\<close>

lemma distinct_positions:
  "distinct (concat (map (\<lambda>r. map (\<lambda>c. (r, c)) (filter (Q r) [0..<m r])) [0..<n]))"
  by (induction n) (auto simp: distinct_map inj_on_def)

lemma set_positive_positions:
  "set (positive_positions labels) =
     {(r, c). r < length labels \<and> c < length (labels ! r) \<and> 0 < labels ! r ! c}"
  by (auto simp: positive_positions_def)

lemma concat_nth_ex:
  "v \<in> set (concat a) \<Longrightarrow> \<exists>r c. r < length a \<and> c < length (a ! r) \<and> a ! r ! c = v"
proof -
  assume "v \<in> set (concat a)"
  then obtain row where row: "row \<in> set a" "v \<in> set row" by auto
  from row(1) obtain r where r: "r < length a" "a ! r = row" by (auto simp: in_set_conv_nth)
  from row(2) obtain c where c: "c < length row" "row ! c = v" by (auto simp: in_set_conv_nth)
  show ?thesis using r c by blast
qed

lemma select_nothing:
  "boolean_select img (map (map (\<lambda>p. np_gt p 0)) (zeros_like img (Num 0))) = []"
proof -
  have row: "map fst (filter snd (zip row (map ((\<lambda>p. np_gt p 0) \<circ> (\<lambda>_. Num 0)) row))) = []"
    for row :: "'a list"
    by (induction row) simp_all
  show ?thesis
    by (induction img) (simp_all add: boolean_select_def zeros_like_def row)
qed

lemma quantify_outcome:
  "quantify_try img labels = Inr x \<Longrightarrow>
   quantify_edge_intensity img labels = \<lparr>caught = None, returned = Inr x\<rparr>"
  by (simp add: quantify_edge_intensity_def)

text \<open>
  Claim C1. For an image and a label map of the same shape with at least one positive
  label, \<open>quantify_edge_intensity\<close> returns, with nothing raised or caught, the arithmetic
  mean of the image over the positions carrying a positive label: each such position once
  (whole region bodies, not contours), and no other position.
\<close>

theorem quantify_mean_of_labelled_pixels:
  assumes "same_shape img labels" and "\<exists>v \<in> set (concat labels). 0 < v"
  shows "quantify_edge_intensity img labels =
           \<lparr>caught = None, returned = Inr (Num (mean_over img (positive_positions labels)))\<rparr> \<and>
         positive_positions labels \<noteq> [] \<and> distinct (positive_positions labels) \<and>
         set (positive_positions labels) =
           {(r, c). r < length labels \<and> c < length (labels ! r) \<and> 0 < labels ! r ! c}"
proof -
  from assms(2) obtain v where v: "v \<in> set (concat labels)" "0 < v" by blast
  from concat_nth_ex [OF v(1)] v(2)
  obtain r c where "r < length labels" "c < length (labels ! r)" "0 < labels ! r ! c"
    by blast
  then have "(r, c) \<in> set (positive_positions labels)" by (simp add: set_positive_positions)
  then have ne: "positive_positions labels \<noteq> []" by auto
  have nm: "np_mean (map Num (map (\<lambda>(r, c). img ! r ! c) (positive_positions labels))) =
            Num (mean_over img (positive_positions labels))"
    unfolding np_mean_Num mean_over_def using ne by simp
  have nonempty: "concat labels \<noteq> []" by (rule mem_nonempty [OF v(1)])
  have "quantify_try img labels = Inr (Num (mean_over img (positive_positions labels)))"
    unfolding quantify_try_eq [OF assms(1) nonempty] nm by (rule refl)
  then have "quantify_edge_intensity img labels =
           \<lparr>caught = None, returned = Inr (Num (mean_over img (positive_positions labels)))\<rparr>"
    by (rule quantify_outcome)
  moreover have "distinct (positive_positions labels)"
    unfolding positive_positions_def by (rule distinct_positions)
  ultimately show ?thesis using ne by (simp add: set_positive_positions)
qed

theorem quantify_mean_of_labelled_pixels_witness:
  "same_shape [[1, 2], [3, 4 :: real]] [[0, 1], [2, 0 :: int]] \<and>
   quantify_edge_intensity [[1, 2], [3, 4]] [[0, 1], [2, 0]] =
     \<lparr>caught = None, returned = Inr (Num (5 / 2))\<rparr> \<and>
   positive_positions [[0, 1], [2, 0]] = [(0, 1), (1, 0)]"
proof -
  have s: "same_shape [[1, 2], [3, 4 :: real]] [[0, 1], [2, 0 :: int]]"
    by (simp add: same_shape_def)
  have e: "\<exists>v \<in> set (concat [[0, 1], [2, 0 :: int]]). 0 < v" by simp
  have p: "positive_positions [[0, 1], [2, 0]] = [(0, 1), (1, 0)]" by code_simp
  have m: "mean_over [[1, 2], [3, 4]] (positive_positions [[0, 1], [2, 0]]) = 5 / 2"
    unfolding p by (simp add: mean_over_def)
  have "quantify_edge_intensity [[1, 2], [3, 4]] [[0, 1], [2, 0]] =
     \<lparr>caught = None, returned = Inr (Num (5 / 2))\<rparr>"
    using quantify_mean_of_labelled_pixels [OF s e] unfolding m by (rule conjunct1)
  then show ?thesis using s p by blast
qed

text \<open>The claim C3 as stated (an error is raised on an all-background label map) fails:\<close>

theorem quantify_no_regions_counterexample:
  "quantify_edge_intensity [[5]] [[0]] = \<lparr>caught = None, returned = Inr NaN\<rparr>"
  by code_simp

text \<open>
  Claim C3, as the code has it. On a label map that has pixels but no positive label,
  whatever the image, \<open>quantify_edge_intensity\<close> raises nothing and catches nothing: it
  returns NaN, the mean NumPy gives an empty selection. (A zero-size label map is another
  matter: \<open>regionprops\<close> raises on it, see \<open>quantify_zero_size_raises\<close> below.)
\<close>

theorem quantify_no_regions_returns_nan:
  assumes "concat labels \<noteq> []" and "\<forall>v \<in> set (concat labels). v \<le> 0"
  shows "quantify_edge_intensity img labels = \<lparr>caught = None, returned = Inr NaN\<rparr>"
proof -
  have "filter (\<lambda>v. 0 < v) (concat labels) = []"
    unfolding filter_empty_conv using assms(2) by fastforce
  then have "region_labels labels = []" by (simp add: region_labels_def)
  then have "quantify_try img labels = Inr NaN"
    by (simp add: quantify_try_def regionprops_None [OF assms(1)] select_nothing
          np_mean_def np_div_def)
  then show ?thesis by (rule quantify_outcome)
qed

theorem quantify_no_regions_returns_nan_witness:
  "quantify_edge_intensity [[1, 2], [3, 4]] [[0, 0], [0, 0]] = \<lparr>caught = None, returned = Inr NaN\<rparr>"
proof -
  have n: "concat [[0, 0], [0, 0 :: int]] \<noteq> []" by simp
  have h: "\<forall>v \<in> set (concat [[0, 0], [0, 0 :: int]]). v \<le> 0" by simp
  show ?thesis using quantify_no_regions_returns_nan [OF n h] by simp
qed

text \<open>On a zero-size label map \<open>regionprops\<close> raises ValueError, which is caught, and
  the \<open>return\<close> raises UnboundLocalError.\<close>

lemma quantify_zero_size_raises:
  "concat labels = [] \<Longrightarrow>
   quantify_edge_intensity img labels = \<lparr>caught = Some ValueError, returned = Inl UnboundLocalError\<rparr>"
  by (simp add: quantify_edge_intensity_def quantify_try_def regionprops_empty)

lemma positive_positions_cong:
  assumes "map length a = map length b"
    and "\<And>r c. r < length a \<Longrightarrow> c < length (a ! r) \<Longrightarrow> (0 < a ! r ! c) = (0 < b ! r ! c)"
  shows "positive_positions a = positive_positions b"
proof -
  have len: "length a = length b" using assms(1) by (rule map_eq_imp_length_eq)
  have "map (\<lambda>r. map (\<lambda>c. (r, c)) (filter (\<lambda>c. 0 < a ! r ! c) [0..<length (a ! r)])) [0..<length a] =
        map (\<lambda>r. map (\<lambda>c. (r, c)) (filter (\<lambda>c. 0 < b ! r ! c) [0..<length (b ! r)])) [0..<length a]"
  proof (rule map_cong)
    fix r assume "r \<in> set [0..<length a]"
    then have r: "r < length a" by simp
    have rl: "length (a ! r) = length (b ! r)" by (rule nth_shape [OF assms(1) r])
    have "filter (\<lambda>c. 0 < a ! r ! c) [0..<length (a ! r)] =
          filter (\<lambda>c. 0 < b ! r ! c) [0..<length (a ! r)]"
      by (rule filter_cong) (simp_all add: assms(2) [OF r])
    then show "map (Pair r) (filter (\<lambda>c. 0 < a ! r ! c) [0..<length (a ! r)]) =
               map (Pair r) (filter (\<lambda>c. 0 < b ! r ! c) [0..<length (b ! r)])"
      by (simp add: rl)
  qed simp
  then show ?thesis unfolding positive_positions_def len [symmetric] by (rule arg_cong)
qed

lemma support_shape: "map length (support a) = map length a"
  by (simp add: support_def comp_def)

lemma support_nth: "r < length a \<Longrightarrow> c < length (a ! r) \<Longrightarrow> support a ! r ! c = (0 < a ! r ! c)"
  by (simp add: support_def)

text \<open>
  Claim C10. For an image and two label maps of its shape in which the same pixels carry a
  positive label, \<open>quantify_edge_intensity\<close> gives the same outcome: the result depends
  on the support of the positive labels only, not on the label values.
\<close>

theorem quantify_depends_on_support_only:
  assumes "same_shape img labels1" and "support labels1 = support labels2"
  shows "quantify_edge_intensity img labels1 = quantify_edge_intensity img labels2"
proof -
  have s: "map length labels1 = map length labels2"
    using support_shape [of labels1] support_shape [of labels2] assms(2) by simp
  have s2: "same_shape img labels2" using assms(1) s by (simp add: same_shape_def)
  have len: "length labels1 = length labels2" using s by (rule map_eq_imp_length_eq)
  have "positive_positions labels1 = positive_positions labels2"
  proof (rule positive_positions_cong [OF s])
    fix r c assume r: "r < length labels1" and c: "c < length (labels1 ! r)"
    have c2: "c < length (labels2 ! r)" using nth_shape [OF s r] c by simp
    have "support labels1 ! r ! c = support labels2 ! r ! c" using assms(2) by simp
    then show "(0 < labels1 ! r ! c) = (0 < labels2 ! r ! c)"
      using support_nth [OF r c] support_nth [of r labels2 c] r len c2 by simp
  qed
  then have "quantify_try img labels1 = quantify_try img labels2"
  proof (cases "concat labels1 = []")
    case True
    then have "concat labels2 = []" using concat_empty_shape [OF s] by blast
    then show ?thesis using True by (simp add: quantify_try_def regionprops_empty)
  next
    case False
    then have "concat labels2 \<noteq> []" using concat_empty_shape [OF s] by blast
    then show ?thesis
      using \<open>positive_positions labels1 = positive_positions labels2\<close>
      by (simp add: quantify_try_eq [OF assms(1) False] quantify_try_eq [OF s2])
  qed
  then show ?thesis by (simp add: quantify_edge_intensity_def)
qed

theorem quantify_depends_on_support_only_witness:
  "same_shape [[1, 2], [3, 4 :: real]] [[0, 7], [3, 0 :: int]] \<and>
   support [[0, 7], [3, 0]] = support [[0, 1], [2, 0]] \<and>
   quantify_edge_intensity [[1, 2], [3, 4]] [[0, 7], [3, 0]] =
   quantify_edge_intensity [[1, 2], [3, 4]] [[0, 1], [2, 0]]"
proof -
  have a: "same_shape [[1, 2], [3, 4 :: real]] [[0, 7], [3, 0 :: int]]"
    by (simp add: same_shape_def)
  have b: "support [[0, 7], [3, 0]] = support [[0, 1], [2, 0]]"
    by (simp add: support_def)
  show ?thesis using quantify_depends_on_support_only [OF a b] a b by simp
qed

section \<open>Relabelling and threshold filtering\<close>

lemma out_vals_nth:
  assumes "0 < n" "i < n"
  shows "(if z then 0 # map int [1..<n] else map int [1..<n + 1]) ! i = int i + (if z then 0 else 1)"
proof (cases z)
  case True
  then show ?thesis using assms by (cases i) (simp_all del: upt_Suc)
next
  case False
  have "map int [1..<n + 1] ! i = int (1 + i)" using assms by (simp del: upt_Suc)
  then show ?thesis using False by simp
qed

lemma out_vals_length:
  "0 < n \<Longrightarrow> length (if z then 0 # map int [1..<n] else map int [1..<n + 1]) = n"
  by auto

lemma relabel_sequential_ok:
  assumes ne: "concat lf \<noteq> []" and nonneg: "\<forall>v \<in> set (concat lf). 0 \<le> v"
  shows "\<exists>f. relabel_sequential lf = Inr (map (map f) lf) \<and>
           (\<forall>v \<in> set (concat lf). 0 \<le> f v \<and> (0 < f v) = (0 < v)) \<and>
           f ` {v \<in> set (concat lf). 0 < v} = {1..int (card {v \<in> set (concat lf). 0 < v})}"
proof -
  define iv where "iv = sort (remdups (concat lf))"
  define n where "n = length iv"
  define z where "z \<longleftrightarrow> hd iv = 0"
  define ov where "ov = (if z then 0 # map int [1..<n] else map int [1..<n + 1])"
  define off :: int where "off = (if z then 0 else 1)"
  define f where "f = map_array iv ov"
  define S where "S = set (concat lf)"
  have setiv: "set iv = S" by (simp add: iv_def S_def)
  have dist: "distinct iv" by (simp add: iv_def)
  have srt: "sorted iv" by (simp add: iv_def)
  have n0: "0 < n" using ne setiv by (auto simp: n_def S_def)
  have lov: "length ov = n" unfolding ov_def by (rule out_vals_length [OF n0])
  have ovn: "\<And>i. i < n \<Longrightarrow> ov ! i = int i + off"
    unfolding ov_def off_def by (rule out_vals_nth [OF n0])
  have F: "f (iv ! i) = int i + off" if "i < n" for i
  proof -
    have "map_of (zip iv ov) (iv ! i) = Some (ov ! i)"
      using that lov dist by (intro map_of_zip_nth) (simp_all add: n_def)
    then show ?thesis using ovn [OF that] by (simp add: f_def map_array_def)
  qed
  have mn: "Min (set (concat lf)) \<ge> 0" using ne nonneg by simp
  have rel: "relabel_sequential lf = Inr (map (map f) lf)"
    using ne mn
    by (simp add: relabel_sequential_def Let_def f_def ov_def z_def n_def iv_def [symmetric] not_less)
  have hd0: "hd iv = iv ! 0" using n0 by (simp add: n_def hd_conv_nth)
  have ge0: "0 \<le> iv ! i" if "i < n" for i
  proof -
    have "iv ! i \<in> set (concat lf)" using that setiv nth_mem [of i iv] by (simp add: n_def S_def)
    then show ?thesis using nonneg by blast
  qed
  have pos: "(0 < iv ! i) = (0 < int i + off)" if i: "i < n" for i
  proof (cases z)
    case True
    then have z0: "iv ! 0 = 0" using hd0 by (simp add: z_def)
    show ?thesis
    proof (cases "i = 0")
      case True
      then show ?thesis using z0 \<open>z\<close> by (simp add: off_def)
    next
      case False
      then have "iv ! i \<noteq> iv ! 0" using dist i n0 by (simp add: nth_eq_iff_index_eq n_def)
      then have "0 < iv ! i" using ge0 [OF i] z0 by simp
      then show ?thesis using False \<open>z\<close> by (simp add: off_def)
    qed
  next
    case False
    then have "0 < iv ! 0" using hd0 ge0 [OF n0] by (simp add: z_def)
    moreover have "iv ! 0 \<le> iv ! i" using srt i by (simp add: sorted_iff_nth_mono n_def)
    ultimately show ?thesis using False by (simp add: off_def)
  qed
  have Sidx: "S = {iv ! i | i. i < n}" using setiv by (auto simp: set_conv_nth n_def)
  have pv: "\<forall>v \<in> S. 0 \<le> f v \<and> (0 < f v) = (0 < v)"
  proof
    fix v assume "v \<in> S"
    then obtain i where i: "i < n" "v = iv ! i" using Sidx by auto
    have "0 \<le> int i + off" by (simp add: off_def)
    then show "0 \<le> f v \<and> (0 < f v) = (0 < v)" using F [OF i(1)] pos [OF i(1)] i(2) by simp
  qed
  define K where "K = (if z then n - 1 else n)"
  have img: "f ` {v \<in> S. 0 < v} = {1..int K}"
  proof (rule set_eqI, rule iffI)
    fix y assume "y \<in> f ` {v \<in> S. 0 < v}"
    then obtain v where v: "v \<in> S" "0 < v" "y = f v" by auto
    then obtain i where i: "i < n" "v = iv ! i" using Sidx by auto
    have "y = int i + off" using v(3) i F by simp
    moreover have "0 < int i + off" using pos [OF i(1)] v(2) i(2) by simp
    ultimately show "y \<in> {1..int K}" using i(1) by (auto simp: K_def off_def split: if_splits)
  next
    fix y assume y: "y \<in> {1..int K}"
    define i where "i = nat (y - off)"
    have i: "i < n" "int i + off = y" using y n0 by (auto simp: i_def K_def off_def split: if_splits)
    have "0 < iv ! i" using pos [OF i(1)] i(2) y by simp
    moreover have "iv ! i \<in> S" using Sidx i(1) by auto
    moreover have "f (iv ! i) = y" using F [OF i(1)] i(2) by simp
    ultimately show "y \<in> f ` {v \<in> S. 0 < v}" by force
  qed
  have inj: "inj_on f {v \<in> S. 0 < v}"
  proof (rule inj_onI)
    fix a b assume "a \<in> {v \<in> S. 0 < v}" "b \<in> {v \<in> S. 0 < v}" "f a = f b"
    then obtain i j where ij: "i < n" "a = iv ! i" "j < n" "b = iv ! j" using Sidx by auto
    then have "int i + off = int j + off" using F \<open>f a = f b\<close> by simp
    then show "a = b" using ij by simp
  qed
  have "card {v \<in> S. 0 < v} = card (f ` {v \<in> S. 0 < v})" using inj by (simp add: card_image)
  also have "\<dots> = K" unfolding img by simp
  finally have "f ` {v \<in> S. 0 < v} = {1..int (card {v \<in> S. 0 < v})}" using img by simp
  then show ?thesis using rel pv unfolding S_def by blast
qed


lemma assign_where_map:
  "assign_where outlines l (map (map g) outlines) =
     map (map (\<lambda>v. if v = l then l else g v)) outlines"
proof -
  have row: "map2 (\<lambda>v old. if v = l then l else old) row (map g row) =
             map (\<lambda>v. if v = l then l else g v) row" for row
    by (induction row) simp_all
  show ?thesis
    by (induction outlines) (simp_all add: assign_where_def row)
qed

lemma filter_loop_map:
  "fold (\<lambda>region labels.
           if np_gt (mean_intensity region) t
           then assign_where outlines (label region) labels else labels)
        regions (map (map g) outlines) =
   map (map (\<lambda>v. if \<exists>reg \<in> set regions. label reg = v \<and> np_gt (mean_intensity reg) t
                   then v else g v)) outlines"
proof (induction regions arbitrary: g)
  case Nil
  show ?case by simp
next
  case (Cons reg regions)
  show ?case
  proof (cases "np_gt (mean_intensity reg) t")
    case True
    have "(\<lambda>v. if \<exists>x \<in> set regions. label x = v \<and> np_gt (mean_intensity x) t then v
               else if v = label reg then label reg else g v) =
          (\<lambda>v. if \<exists>x \<in> set (reg # regions). label x = v \<and> np_gt (mean_intensity x) t then v
               else g v)"
      using True by (auto simp: fun_eq_iff)
    then show ?thesis
      using True Cons.IH [of "\<lambda>v. if v = label reg then label reg else g v"]
      by (simp add: assign_where_map)
  next
    case False
    have "(\<lambda>v. if \<exists>x \<in> set regions. label x = v \<and> np_gt (mean_intensity x) t then v else g v) =
          (\<lambda>v. if \<exists>x \<in> set (reg # regions). label x = v \<and> np_gt (mean_intensity x) t then v
               else g v)"
      using False by (auto simp: fun_eq_iff)
    then show ?thesis using False Cons.IH [of g] by simp
  qed
qed

lemma regionprops_Some:
  assumes "regionprops outlines (Some im) = Inr regions"
  shows "regions = map (\<lambda>l. \<lparr>label = l, coords = region_coords outlines l,
                              mean_intensity = region_mean outlines im l\<rparr>) (region_labels outlines)"
    and "region_labels outlines = [] \<or> same_shape im outlines"
  using assms by (auto simp: regionprops_def region_mean_def split: if_splits)

lemma threshold_filter_surviving:
  assumes "regionprops outlines (Some im) = Inr regions"
  shows "threshold_filter outlines regions t = surviving outlines im t"
proof -
  have ex: "(\<exists>reg \<in> set regions. label reg = v \<and> np_gt (mean_intensity reg) t) \<longleftrightarrow>
            v \<in> set (region_labels outlines) \<and> np_gt (region_mean outlines im v) t" for v
    unfolding regionprops_Some(1) [OF assms] by auto
  have z: "zeros_like outlines (0::int) = map (map (\<lambda>_. 0)) outlines" by (simp add: zeros_like_def)
  have "threshold_filter outlines regions t =
        map (map (\<lambda>v. if v \<in> set (region_labels outlines) \<and> np_gt (region_mean outlines im v) t
                       then v else 0)) outlines"
    unfolding threshold_filter_def z filter_loop_map ex by (rule refl)
  also have "\<dots> = surviving outlines im t"
    unfolding surviving_def
  proof (rule map_cong [OF refl], rule map_cong [OF refl])
    fix row v assume "row \<in> set outlines" "v \<in> set row"
    then have "v \<in> set (concat outlines)" by auto
    then have "v \<in> set (region_labels outlines) \<longleftrightarrow> 0 < v" by (simp add: set_region_labels)
    then show "(if v \<in> set (region_labels outlines) \<and> np_gt (region_mean outlines im v) t then v else 0) =
               (if 0 < v \<and> np_gt (region_mean outlines im v) t then v else 0)"
      by simp
  qed
  finally show ?thesis .
qed

lemma surviving_shape: "map length (surviving outlines im t) = map length outlines"
  by (simp add: surviving_def comp_def)

lemma surviving_nth:
  "r < length outlines \<Longrightarrow> c < length (outlines ! r) \<Longrightarrow>
   surviving outlines im t ! r ! c =
     (if 0 < outlines ! r ! c \<and> np_gt (region_mean outlines im (outlines ! r ! c)) t
      then outlines ! r ! c else 0)"
  by (simp add: surviving_def)

lemma surviving_nonneg: "\<forall>v \<in> set (concat (surviving outlines im t)). 0 \<le> v"
  by (auto simp: surviving_def)

lemma positive_values_surviving:
  "positive_values (surviving outlines im t) =
     {v \<in> set (concat outlines). 0 < v \<and> np_gt (region_mean outlines im v) t}"
  by (auto simp: positive_values_def surviving_def)

lemma surviving_empty: "concat (surviving outlines im t) = [] \<longleftrightarrow> concat outlines = []"
  by (simp add: surviving_def map_concat [symmetric] del: map_concat)

lemma relabel_sequential_facts:
  assumes rel: "relabel_sequential lab = Inr fl" and nonneg: "\<forall>v \<in> set (concat lab). 0 \<le> v"
  shows "map length fl = map length lab"
    and "positive_values fl = {1..int (card (positive_values lab))}"
    and "\<forall>v \<in> set (concat fl). 0 \<le> v"
    and "\<And>r c. r < length lab \<Longrightarrow> c < length (lab ! r) \<Longrightarrow> (0 < fl ! r ! c) = (0 < lab ! r ! c)"
proof -
  have ne: "concat lab \<noteq> []" using rel by (auto simp: relabel_sequential_def split: if_splits)
  from relabel_sequential_ok [OF ne nonneg] rel obtain f where
    fl: "fl = map (map f) lab" and
    pv: "\<forall>v \<in> set (concat lab). 0 \<le> f v \<and> (0 < f v) = (0 < v)" and
    img: "f ` {v \<in> set (concat lab). 0 < v} = {1..int (card {v \<in> set (concat lab). 0 < v})}"
    by auto
  show "map length fl = map length lab" by (simp add: fl comp_def)
  have vals: "set (concat fl) = f ` set (concat lab)" by (auto simp: fl)
  have "positive_values fl = f ` {v \<in> set (concat lab). 0 < v}"
    unfolding positive_values_def vals using pv by auto
  then show "positive_values fl = {1..int (card (positive_values lab))}"
    using img by (simp add: positive_values_def)
  show "\<forall>v \<in> set (concat fl). 0 \<le> v" unfolding vals using pv by auto
  show "(0 < fl ! r ! c) = (0 < lab ! r ! c)" if r: "r < length lab" and c: "c < length (lab ! r)" for r c
  proof -
    have "lab ! r ! c \<in> set (concat lab)" using r c by (metis nth_mem set_concat UN_I)
    then have "(0 < f (lab ! r ! c)) = (0 < lab ! r ! c)" using pv by blast
    moreover have "fl ! r ! c = f (lab ! r ! c)" using r c by (simp add: fl)
    ultimately show ?thesis by simp
  qed
qed

section \<open>Segmentation\<close>

lemma watershed_step_Inr:
  assumes "watershed_step P fimg ss os = Inr (sb, ob, spots, outlines)"
  shows "sk_watershed P ob spots (map (map (\<lambda>x. np_gt x 0)) fimg) = Inr outlines"
  using assms by (auto simp: watershed_step_def split: sum.splits)

lemma cell_segmentation_Inr:
  assumes "returned (cell_segmentation P img ss os t) = Inr fl"
  shows "\<exists>sb ob spots outlines.
           watershed_step P (map (map Num) img) ss os = Inr (sb, ob, spots, outlines) \<and>
           (region_labels outlines = [] \<or> same_shape (map (map Num) img) outlines) \<and>
           relabel_sequential (surviving outlines (map (map Num) img) t) = Inr fl \<and>
           caught (cell_segmentation P img ss os t) = None"
proof -
  have st: "segmentation_try P img ss os t = Inr fl"
    using assms by (auto simp: cell_segmentation_def split: sum.splits)
  then obtain sb ob spots outlines where
    ws: "watershed_step P (map (map Num) img) ss os = Inr (sb, ob, spots, outlines)"
    by (auto simp: segmentation_try_def Let_def split: sum.splits)
  from st ws obtain regions where
    rp: "regionprops outlines (Some (map (map Num) img)) = Inr regions" and
    rl: "relabel_sequential (threshold_filter outlines regions t) = Inr fl"
    by (auto simp: segmentation_try_def Let_def split: sum.splits)
  have "relabel_sequential (surviving outlines (map (map Num) img) t) = Inr fl"
    using rl by (simp add: threshold_filter_surviving [OF rp])
  moreover have "caught (cell_segmentation P img ss os t) = None"
    using st by (simp add: cell_segmentation_def)
  ultimately show ?thesis using ws regionprops_Some(2) [OF rp] by blast
qed

lemma cell_segmentation_intro:
  assumes "watershed_step P (map (map Num) img) ss os = Inr (sb, ob, spots, outlines)"
    and "region_labels outlines = [] \<or> same_shape (map (map Num) img) outlines"
  shows "returned (cell_segmentation P img ss os t) =
           (case relabel_sequential (surviving outlines (map (map Num) img) t) of
              Inl e \<Rightarrow> Inl UnboundLocalError | Inr fl \<Rightarrow> Inr fl)"
proof (cases "concat outlines = []")
  case True
  have "segmentation_try P img ss os t = Inl ValueError"
    using assms(1) by (simp add: segmentation_try_def Let_def regionprops_empty [OF True])
  moreover have e: "concat (surviving outlines (map (map Num) img) t) = []"
    using True unfolding surviving_empty .
  have "relabel_sequential (surviving outlines (map (map Num) img) t) = Inl ValueError"
    unfolding relabel_sequential_def e by simp
  ultimately show ?thesis by (simp add: cell_segmentation_def)
next
  case False
  obtain regions where rp: "regionprops outlines (Some (map (map Num) img)) = Inr regions"
    using assms(2) False by (auto simp: regionprops_def)
  have "segmentation_try P img ss os t = relabel_sequential (surviving outlines (map (map Num) img) t)"
    using assms(1) rp by (simp add: segmentation_try_def Let_def threshold_filter_surviving [OF rp])
  then show ?thesis by (simp add: cell_segmentation_def split: sum.splits)
qed

text \<open>
  Claim C2. Whenever \<open>cell_segmentation\<close> returns a label map, the positive values
  occurring in it are exactly \<open>1, \<dots>, K\<close> for some \<open>K \<ge> 0\<close>, and every other pixel
  carries 0. This holds for any implementation of the scikit-image primitives.
\<close>

theorem labels_dense_range:
  assumes "returned (cell_segmentation P img ss os t) = Inr fl"
  shows "\<exists>K. positive_values fl = {1..int K} \<and> set (concat fl) \<subseteq> insert 0 {1..int K}"
proof -
  from cell_segmentation_Inr [OF assms] obtain outlines where
    rl: "relabel_sequential (surviving outlines (map (map Num) img) t) = Inr fl" by blast
  note f = relabel_sequential_facts [OF rl surviving_nonneg]
  let ?K = "card (positive_values (surviving outlines (map (map Num) img) t))"
  have "set (concat fl) \<subseteq> insert 0 {1..int ?K}"
  proof
    fix v assume v: "v \<in> set (concat fl)"
    then have "0 \<le> v" using f(3) by blast
    then have "v = 0 \<or> v \<in> positive_values fl" using v by (auto simp: positive_values_def)
    then show "v \<in> insert 0 {1..int ?K}" using f(2) by auto
  qed
  then show ?thesis using f(2) by blast
qed

theorem labels_dense_range_witness:
  "returned (cell_segmentation (stub_skimage [[1, 1], [2, 3]]) [[2, 4], [1 / 2, 5]] 6 3 1) = Inr [[1, 1], [0, 2]] \<and>
   (\<exists>K. positive_values [[1, 1], [0, 2]] = {1..int K} \<and> set (concat [[1, 1], [0, 2 :: int]]) \<subseteq> insert 0 {1..int K})"
proof -
  have r: "returned (cell_segmentation (stub_skimage [[1, 1], [2, 3]]) [[2, 4], [1 / 2, 5]] 6 3 1) = Inr [[1, 1], [0, 2]]"
    by code_simp
  show ?thesis using labels_dense_range [OF r] r by blast
qed

lemma same_shape_shape: "map length a = map length b \<Longrightarrow> shape a = shape b"
  by (cases a; cases b) (auto simp: shape_def dest: map_eq_imp_length_eq)

lemma outlines_shape:
  assumes "watershed_contract P"
    and "watershed_step P (map (map Num) img) ss os = Inr (sb, ob, spots, outlines)"
  shows "map length outlines = map length img"
    and "\<And>r c. r < length img \<Longrightarrow> c < length (img ! r) \<Longrightarrow> img ! r ! c \<le> 0 \<Longrightarrow> outlines ! r ! c = 0"
proof -
  let ?m = "map (map (\<lambda>x. np_gt x 0)) (map (map Num) img)"
  have ws: "sk_watershed P ob spots ?m = Inr outlines" by (rule watershed_step_Inr [OF assms(2)])
  from assms(1) ws have c: "same_shape outlines ?m"
    "\<forall>r < length ?m. \<forall>c < length (?m ! r). \<not> ?m ! r ! c \<longrightarrow> outlines ! r ! c = 0"
    unfolding watershed_contract_def by blast+
  show "map length outlines = map length img" using c(1) by (simp add: same_shape_def comp_def)
  show "outlines ! r ! c = 0" if "r < length img" "c < length (img ! r)" "img ! r ! c \<le> 0" for r c
    using c(2) that by simp
qed


text \<open>
  Claim C8. Whenever \<open>cell_segmentation\<close> returns a label map, it has the shape of the
  input image: the same number of rows, and rows of the same lengths. The watershed is
  assumed to return an array of the shape of its mask, as documented.
\<close>

theorem label_map_shape:
  assumes "watershed_contract P" and "returned (cell_segmentation P img ss os t) = Inr fl"
  shows "same_shape fl img \<and> shape fl = shape img"
proof -
  from cell_segmentation_Inr [OF assms(2)] obtain sb ob spots outlines where
    ws: "watershed_step P (map (map Num) img) ss os = Inr (sb, ob, spots, outlines)" and
    rl: "relabel_sequential (surviving outlines (map (map Num) img) t) = Inr fl" by blast
  have "map length fl = map length img"
    using relabel_sequential_facts(1) [OF rl surviving_nonneg] surviving_shape
      outlines_shape(1) [OF assms(1) ws] by simp
  then show ?thesis using same_shape_shape by (simp add: same_shape_def)
qed

lemma stub_contract: "watershed_contract (stub_skimage seeds)"
proof -
  have row: "length lrow = length mrow \<Longrightarrow> c < length mrow \<Longrightarrow> \<not> mrow ! c \<Longrightarrow>
             map2 (\<lambda>l b. if b then l else (0::int)) lrow mrow ! c = 0" for lrow mrow c
    by simp
  show ?thesis
    unfolding watershed_contract_def stub_skimage_def
  proof (intro allI impI)
    fix img :: fimage and markers :: label_map and m :: mask and out
    assume a: "sk_watershed \<lparr>sk_gaussian = \<lambda>a sigma. Inr a,
                  sk_local_minima = \<lambda>a. Inr (map (map (\<lambda>x. False)) a),
                  sk_label = \<lambda>m. Inr seeds,
                  sk_watershed = \<lambda>a markers m.
                     if same_shape markers m
                     then Inr (map2 (\<lambda>lrow mrow. map2 (\<lambda>l b. if b then l else 0) lrow mrow) markers m)
                     else Inl ValueError\<rparr> img markers m = Inr out"
    then have sh: "map length markers = map length m"
      and out: "out = map2 (\<lambda>lrow mrow. map2 (\<lambda>l b. if b then l else 0) lrow mrow) markers m"
      by (auto simp: same_shape_def split: if_splits)
    have len: "length markers = length m" using sh by (rule map_eq_imp_length_eq)
    have rows: "\<And>r. r < length m \<Longrightarrow> length (markers ! r) = length (m ! r)"
      using nth_shape [OF sh] len by simp
    have "map length out = map length m"
      unfolding out using len rows by (intro nth_equalityI) simp_all
    moreover have "out ! r ! c = 0" if "r < length m" "c < length (m ! r)" "\<not> m ! r ! c" for r c
      unfolding out using that len rows by simp
    ultimately show "same_shape out m \<and>
        (\<forall>r<length m. \<forall>c<length (m ! r). \<not> m ! r ! c \<longrightarrow> out ! r ! c = 0)"
      by (simp add: same_shape_def)
  qed
qed

theorem label_map_shape_witness:
  "returned (cell_segmentation (stub_skimage [[1, 1], [2, 3]]) [[2, 4], [1 / 2, 5]] 6 3 1) = Inr [[1, 1], [0, 2]] \<and>
   same_shape [[1, 1], [0, 2 :: int]] [[2, 4], [1 / 2, 5 :: real]] \<and>
   shape [[1, 1], [0, 2 :: int]] = shape [[2, 4], [1 / 2, 5 :: real]]"
proof -
  have r: "returned (cell_segmentation (stub_skimage [[1, 1], [2, 3]]) [[2, 4], [1 / 2, 5]] 6 3 1) = Inr [[1, 1], [0, 2]]"
    by code_simp
  show ?thesis using label_map_shape [OF stub_contract r] r by simp
qed

lemma nth_in_concat: "r < length a \<Longrightarrow> c < length (a ! r) \<Longrightarrow> a ! r ! c \<in> set (concat a)"
  by (metis nth_mem set_concat UN_I)

lemma surviving_length:
  "length (surviving outlines im t) = length outlines"
  "r < length outlines \<Longrightarrow> length (surviving outlines im t ! r) = length (outlines ! r)"
  by (simp_all add: surviving_def)

text \<open>
  Claim C9. Whenever \<open>cell_segmentation\<close> returns a label map, every pixel whose
  intensity is not greater than zero carries 0 in it; in particular the map is all
  background when no pixel of the image is greater than zero. The watershed is assumed
  to leave the pixels outside its mask unlabelled, as documented.
\<close>

theorem masked_pixels_background:
  assumes "watershed_contract P" and "returned (cell_segmentation P img ss os t) = Inr fl"
  shows "(\<forall>r < length img. \<forall>c < length (img ! r). img ! r ! c \<le> 0 \<longrightarrow> fl ! r ! c = 0) \<and>
         ((\<forall>x \<in> set (concat img). x \<le> 0) \<longrightarrow> (\<forall>v \<in> set (concat fl). v = 0))"
proof -
  from cell_segmentation_Inr [OF assms(2)] obtain sb ob spots outlines where
    ws: "watershed_step P (map (map Num) img) ss os = Inr (sb, ob, spots, outlines)" and
    rl: "relabel_sequential (surviving outlines (map (map Num) img) t) = Inr fl" by blast
  let ?lab = "surviving outlines (map (map Num) img) t"
  note f = relabel_sequential_facts [OF rl surviving_nonneg]
  note o = outlines_shape [OF assms(1) ws]
  have lo: "length outlines = length img" using o(1) by (rule map_eq_imp_length_eq)
  have ro: "\<And>r. r < length img \<Longrightarrow> length (outlines ! r) = length (img ! r)"
    using nth_shape [OF o(1)] lo by simp
  have fs: "map length fl = map length img" using f(1) surviving_shape o(1) by simp
  have lf: "length fl = length img" using fs by (rule map_eq_imp_length_eq)
  have rf: "\<And>r. r < length img \<Longrightarrow> length (fl ! r) = length (img ! r)"
    using nth_shape [OF fs] lf by simp
  have px: "fl ! r ! c = 0" if r: "r < length img" and c: "c < length (img ! r)" and x: "img ! r ! c \<le> 0" for r c
  proof -
    have r': "r < length outlines" and c': "c < length (outlines ! r)" using r c lo ro by simp_all
    have "outlines ! r ! c = 0" by (rule o(2) [OF r c x])
    then have "?lab ! r ! c = 0" by (simp add: surviving_nth [OF r' c'])
    moreover have "(0 < fl ! r ! c) = (0 < ?lab ! r ! c)"
      by (rule f(4)) (simp_all add: surviving_length r' c')
    moreover have "fl ! r ! c \<in> set (concat fl)"
      by (rule nth_in_concat) (simp_all add: lf rf r c)
    then have "0 \<le> fl ! r ! c" using f(3) by blast
    ultimately show ?thesis by simp
  qed
  have A: "\<forall>r < length img. \<forall>c < length (img ! r). img ! r ! c \<le> 0 \<longrightarrow> fl ! r ! c = 0"
    by (intro allI impI) (rule px)
  have "\<forall>v \<in> set (concat fl). v = 0" if all: "\<forall>x \<in> set (concat img). x \<le> 0"
  proof
    fix v assume "v \<in> set (concat fl)"
    from concat_nth_ex [OF this]
    obtain r c where rc: "r < length fl" "c < length (fl ! r)" "fl ! r ! c = v" by blast
    then have r: "r < length img" and c: "c < length (img ! r)" using lf rf by simp_all
    have "img ! r ! c \<in> set (concat img)" using r c by (rule nth_in_concat)
    then have "img ! r ! c \<le> 0" using all by blast
    then show "v = 0" using px [OF r c] rc(3) by simp
  qed
  then have B: "(\<forall>x \<in> set (concat img). x \<le> 0) \<longrightarrow> (\<forall>v \<in> set (concat fl). v = 0)"
    by (rule impI)
  show ?thesis using A B by (rule conjI)
qed

theorem masked_pixels_background_witness:
  "returned (cell_segmentation (stub_skimage [[1, 1], [2, 3]]) [[2, 0], [-1, 5]] 6 3 1) = Inr [[1, 0], [0, 2]] \<and>
   [[1, 0], [0, 2 :: int]] ! 0 ! 1 = 0 \<and>
   returned (cell_segmentation (stub_skimage [[1, 1], [2, 3]]) [[0, 0], [-1, 0]] 6 3 1) = Inr [[0, 0], [0, 0]]"
proof -
  have r: "returned (cell_segmentation (stub_skimage [[1, 1], [2, 3]]) [[2, 0], [-1, 5]] 6 3 1) = Inr [[1, 0], [0, 2]]"
    by code_simp
  have r0: "returned (cell_segmentation (stub_skimage [[1, 1], [2, 3]]) [[0, 0], [-1, 0]] 6 3 1) = Inr [[0, 0], [0, 0]]"
    by code_simp
  have "[[2, 0], [-1, 5 :: real]] ! 0 ! 1 \<le> 0 \<longrightarrow> [[1, 0], [0, 2 :: int]] ! 0 ! 1 = 0"
    using masked_pixels_background [OF stub_contract r] by simp
  then show ?thesis using r r0 by simp
qed

lemma np_gt_mono: "np_gt x t \<Longrightarrow> t' \<le> t \<Longrightarrow> np_gt x t'"
  by (cases x) simp_all

lemma finite_positive_values: "finite (positive_values lm)"
  by (simp add: positive_values_def)

text \<open>
  Claim C7. For a fixed image and fixed sigmas, lowering the threshold never loses a
  region: if \<open>cell_segmentation\<close> returns a label map at threshold \<open>t\<close>, it returns one
  at every \<open>t' \<le> t\<close>, every pixel labelled at \<open>t\<close> is labelled at \<open>t'\<close>, and the
  number \<open>K\<close> of distinct positive labels at \<open>t\<close> is at most that at \<open>t'\<close>.
\<close>

theorem threshold_monotone:
  assumes "t' \<le> t" and "returned (cell_segmentation P img ss os t) = Inr fl"
  shows "\<exists>fl'. returned (cell_segmentation P img ss os t') = Inr fl' \<and>
           card (positive_values fl) \<le> card (positive_values fl') \<and>
           same_shape fl fl' \<and>
           (\<forall>r < length fl. \<forall>c < length (fl ! r). 0 < fl ! r ! c \<longrightarrow> 0 < fl' ! r ! c)"
proof -
  let ?im = "map (map Num) img"
  from cell_segmentation_Inr [OF assms(2)] obtain sb ob spots outlines where
    ws: "watershed_step P ?im ss os = Inr (sb, ob, spots, outlines)" and
    rs: "region_labels outlines = [] \<or> same_shape ?im outlines" and
    rl: "relabel_sequential (surviving outlines ?im t) = Inr fl" by blast
  let ?lab = "surviving outlines ?im t" and ?lab' = "surviving outlines ?im t'"
  have "concat ?lab \<noteq> []"
    using rl by (auto simp: relabel_sequential_def split: if_splits)
  then have ne: "concat ?lab' \<noteq> []"
    unfolding surviving_empty .
  from relabel_sequential_ok [OF ne surviving_nonneg] obtain fl' where
    rl': "relabel_sequential ?lab' = Inr fl'" by blast
  have ret: "returned (cell_segmentation P img ss os t') = Inr fl'"
    by (simp add: cell_segmentation_intro [OF ws rs] rl')
  note f = relabel_sequential_facts [OF rl surviving_nonneg]
  note f' = relabel_sequential_facts [OF rl' surviving_nonneg]
  have sub: "positive_values ?lab \<subseteq> positive_values ?lab'"
    unfolding positive_values_surviving using np_gt_mono [OF _ assms(1)] by blast
  have "card (positive_values ?lab) \<le> card (positive_values ?lab')"
    by (rule card_mono [OF finite_positive_values sub])
  then have K: "card (positive_values fl) \<le> card (positive_values fl')"
    unfolding f(2) f'(2) by simp
  have sh: "map length fl = map length fl'" using f(1) f'(1) by (simp add: surviving_shape)
  have lf: "length fl = length outlines"
    using f(1) surviving_shape [of outlines ?im t] by (metis map_eq_imp_length_eq)
  have px: "0 < fl' ! r ! c" if r: "r < length fl" and c: "c < length (fl ! r)" and p: "0 < fl ! r ! c" for r c
  proof -
    have r': "r < length outlines" using r lf by simp
    have "length (fl ! r) = length (?lab ! r)" using nth_shape [OF f(1) r] .
    then have c': "c < length (outlines ! r)" using c r' by (simp add: surviving_length)
    have "0 < ?lab ! r ! c"
      using f(4) [of r c] p r' c' by (simp add: surviving_length)
    then have "0 < ?lab' ! r ! c"
      using np_gt_mono [OF _ assms(1)] by (auto simp: surviving_nth [OF r' c'] split: if_splits)
    then show ?thesis using f'(4) [of r c] r' c' by (simp add: surviving_length)
  qed
  have P: "\<forall>r < length fl. \<forall>c < length (fl ! r). 0 < fl ! r ! c \<longrightarrow> 0 < fl' ! r ! c"
    by (intro allI impI) (rule px)
  show ?thesis
    by (intro exI conjI) (rule ret, rule K, simp add: same_shape_def sh, rule P)
qed

theorem threshold_monotone_witness:
  "returned (cell_segmentation (stub_skimage [[1, 1], [2, 3]]) [[2, 4], [1 / 2, 5]] 6 3 1) = Inr [[1, 1], [0, 2]] \<and>
   returned (cell_segmentation (stub_skimage [[1, 1], [2, 3]]) [[2, 4], [1 / 2, 5]] 6 3 (1 / 4)) = Inr [[1, 1], [2, 3]] \<and>
   card (positive_values [[1, 1], [0, 2]]) \<le> card (positive_values [[1, 1], [2, 3]])"
proof -
  have le: "(1 / 4 :: real) \<le> 1" by simp
  have r: "returned (cell_segmentation (stub_skimage [[1, 1], [2, 3]]) [[2, 4], [1 / 2, 5]] 6 3 1) = Inr [[1, 1], [0, 2]]"
    by code_simp
  have r': "returned (cell_segmentation (stub_skimage [[1, 1], [2, 3]]) [[2, 4], [1 / 2, 5]] 6 3 (1 / 4)) = Inr [[1, 1], [2, 3]]"
    by code_simp
  show ?thesis using threshold_monotone [OF le r] r r' by simp
qed


lemma demo_cell_segmentation_Inr:
  assumes "returned (demo_cell_segmentation P img ss os t) = Inr (fl, sb, ob, spots, outlines)"
  shows "\<exists>normalized_image.
           normalize img = Inr normalized_image \<and>
           watershed_step P normalized_image ss os = Inr (sb, ob, spots, outlines) \<and>
           (region_labels outlines = [] \<or> same_shape normalized_image outlines) \<and>
           relabel_sequential (surviving outlines normalized_image t) = Inr fl \<and>
           caught (demo_cell_segmentation P img ss os t) =
             (if region_labels outlines = [] then Some ValueError else None)"
proof -
  from assms obtain late where
    st: "demo_segmentation_try P img ss os t = Inr ((fl, sb, ob, spots, outlines), late)"
    by (auto simp: demo_cell_segmentation_def split: sum.splits)
  then obtain nimg where nm: "normalize img = Inr nimg"
    by (auto simp: demo_segmentation_try_def split: sum.splits)
  from st nm have ws: "watershed_step P nimg ss os = Inr (sb, ob, spots, outlines)"
    by (auto simp: demo_segmentation_try_def Let_def split: sum.splits)
  from st nm ws obtain regions where
    rp: "regionprops outlines (Some nimg) = Inr regions" and
    rl: "relabel_sequential (threshold_filter outlines regions t) = Inr fl" and
    lt: "late = (if map mean_intensity regions = [] then Some ValueError else None)"
    by (auto simp: demo_segmentation_try_def Let_def split: sum.splits)
  have rl': "relabel_sequential (surviving outlines nimg t) = Inr fl"
    using rl by (simp add: threshold_filter_surviving [OF rp])
  have "regions = [] \<longleftrightarrow> region_labels outlines = []"
    unfolding regionprops_Some(1) [OF rp] by simp
  then have "caught (demo_cell_segmentation P img ss os t) =
             (if region_labels outlines = [] then Some ValueError else None)"
    using st lt by (simp add: demo_cell_segmentation_def)
  then show ?thesis using nm ws regionprops_Some(2) [OF rp] rl' by blast
qed

lemma support_relabel:
  assumes "relabel_sequential (surviving outlines im t) = Inr fl"
  shows "support fl = support (surviving outlines im t)"
proof -
  let ?lab = "surviving outlines im t"
  note f = relabel_sequential_facts [OF assms surviving_nonneg]
  have len: "length fl = length ?lab" using f(1) by (rule map_eq_imp_length_eq)
  show ?thesis
    unfolding support_def
  proof (rule nth_equalityI)
    show "length (map (map (\<lambda>v. 0 < v)) fl) = length (map (map (\<lambda>v. 0 < v)) ?lab)"
      using len by simp
  next
    fix r assume "r < length (map (map (\<lambda>v. 0 < v)) fl)"
    then have r: "r < length fl" by simp
    then have r': "r < length ?lab" using len by simp
    have rl: "length (fl ! r) = length (?lab ! r)" by (rule nth_shape [OF f(1) r])
    have "map (\<lambda>v. 0 < v) (fl ! r) = map (\<lambda>v. 0 < v) (?lab ! r)"
    proof (rule nth_equalityI)
      show "length (map (\<lambda>v. 0 < v) (fl ! r)) = length (map (\<lambda>v. 0 < v) (?lab ! r))"
        using rl by simp
    next
      fix c assume "c < length (map (\<lambda>v. 0 < v) (fl ! r))"
      then have c: "c < length (?lab ! r)" using rl by simp
      then show "map (\<lambda>v. 0 < v) (fl ! r) ! c = map (\<lambda>v. 0 < v) (?lab ! r) ! c"
        using f(4) [OF r' c] rl by simp
    qed
    then show "map (map (\<lambda>v. 0 < v)) fl ! r = map (map (\<lambda>v. 0 < v)) ?lab ! r"
      using r r' by simp
  qed
qed

text \<open>
  Claim C5, as the code has it. The region of each positive label of the watershed output
  is kept whole when its mean intensity strictly exceeds the threshold and zeroed
  otherwise (\<open>surviving\<close>), and the returned map is positive exactly on the pixels of the
  kept regions. The mean is taken under the image the script segments: the normalized
  image in the demo script, the input image cast to float64, not normalized, in the batch
  script.
\<close>

theorem regions_filtered_by_mean:
  "(returned (cell_segmentation P img ss os t) = Inr fl \<longrightarrow>
      (\<exists>sb ob spots outlines.
         watershed_step P (map (map Num) img) ss os = Inr (sb, ob, spots, outlines) \<and>
         support fl = support (surviving outlines (map (map Num) img) t))) \<and>
   (returned (demo_cell_segmentation P img ss os t) = Inr (fl', sb', ob', spots', outlines') \<longrightarrow>
      (\<exists>normalized_image.
         normalize img = Inr normalized_image \<and>
         watershed_step P normalized_image ss os = Inr (sb', ob', spots', outlines') \<and>
         support fl' = support (surviving outlines' normalized_image t)))"
proof (intro conjI impI)
  assume "returned (cell_segmentation P img ss os t) = Inr fl"
  from cell_segmentation_Inr [OF this] obtain sb ob spots outlines where
    ws: "watershed_step P (map (map Num) img) ss os = Inr (sb, ob, spots, outlines)" and
    rl: "relabel_sequential (surviving outlines (map (map Num) img) t) = Inr fl" by blast
  show "\<exists>sb ob spots outlines.
         watershed_step P (map (map Num) img) ss os = Inr (sb, ob, spots, outlines) \<and>
         support fl = support (surviving outlines (map (map Num) img) t)"
    using ws support_relabel [OF rl] by blast
next
  assume "returned (demo_cell_segmentation P img ss os t) = Inr (fl', sb', ob', spots', outlines')"
  from demo_cell_segmentation_Inr [OF this] obtain nimg where
    nm: "normalize img = Inr nimg" and
    ws: "watershed_step P nimg ss os = Inr (sb', ob', spots', outlines')" and
    rl: "relabel_sequential (surviving outlines' nimg t) = Inr fl'" by blast
  show "\<exists>normalized_image.
         normalize img = Inr normalized_image \<and>
         watershed_step P normalized_image ss os = Inr (sb', ob', spots', outlines') \<and>
         support fl' = support (surviving outlines' normalized_image t)"
    using nm ws support_relabel [OF rl] by blast
qed

text \<open>
  The claim C5 as stated (the mean is taken under the normalized image) fails on the batch
  script: the one region of this image has mean 3 under the image and mean 1/2 under the
  normalized image; at threshold 1 it is kept.
\<close>

theorem regions_filtered_by_mean_counterexample:
  "returned (cell_segmentation (stub_skimage [[1, 1]]) [[2, 4]] 6 3 1) = Inr [[1, 1]] \<and>
   watershed_step (stub_skimage [[1, 1]]) [[Num 2, Num 4]] 6 3 =
     Inr ([[Num 2, Num 4]], [[Num 2, Num 4]], [[1, 1]], [[1, 1]]) \<and>
   normalize [[2, 4]] = Inr [[Num 0, Num 1]] \<and>
   region_mean [[1, 1]] [[Num 0, Num 1]] 1 = Num (1 / 2) \<and>
   region_mean [[1, 1]] [[Num 2, Num 4]] 1 = Num 3"
  by code_simp

theorem regions_filtered_by_mean_witness:
  "returned (cell_segmentation (stub_skimage [[1, 1], [2, 3]]) [[2, 4], [1 / 2, 5]] 6 3 1) = Inr [[1, 1], [0, 2]] \<and>
   support [[1, 1], [0, 2]] =
     support (surviving [[1, 1], [2, 3]] [[Num 2, Num 4], [Num (1 / 2), Num 5]] 1) \<and>
   returned (demo_cell_segmentation (stub_skimage [[1, 1], [2, 3]]) [[2, 4], [1 / 2, 5]] 6 3 (1 / 2)) =
     Inr ([[1, 1], [0, 2]], [[Num (1 / 3), Num (7 / 9)], [Num 0, Num 1]],
          [[Num (1 / 3), Num (7 / 9)], [Num 0, Num 1]], [[1, 1], [2, 3]], [[1, 1], [0, 3]]) \<and>
   support [[1, 1], [0, 2]] =
     support (surviving [[1, 1], [0, 3]] [[Num (1 / 3), Num (7 / 9)], [Num 0, Num 1]] (1 / 2))"
proof -
  let ?P = "stub_skimage [[1, 1], [2, 3]]"
  have r: "returned (cell_segmentation ?P [[2, 4], [1 / 2, 5]] 6 3 1) = Inr [[1, 1], [0, 2]]"
    by code_simp
  have w: "watershed_step ?P (map (map Num) [[2, 4], [1 / 2, 5]]) 6 3 =
     Inr ([[Num 2, Num 4], [Num (1 / 2), Num 5]], [[Num 2, Num 4], [Num (1 / 2), Num 5]],
          [[1, 1], [2, 3]], [[1, 1], [2, 3]])"
    by code_simp
  have d: "returned (demo_cell_segmentation ?P [[2, 4], [1 / 2, 5]] 6 3 (1 / 2)) =
     Inr ([[1, 1], [0, 2]], [[Num (1 / 3), Num (7 / 9)], [Num 0, Num 1]],
          [[Num (1 / 3), Num (7 / 9)], [Num 0, Num 1]], [[1, 1], [2, 3]], [[1, 1], [0, 3]])"
    by code_simp
  have n: "normalize [[2, 4], [1 / 2, 5]] = Inr [[Num (1 / 3), Num (7 / 9)], [Num 0, Num 1]]"
    by code_simp
  note t = regions_filtered_by_mean [of ?P "[[2, 4], [1 / 2, 5]]" 6 3 1 "[[1, 1], [0, 2]]"]
  note t' = regions_filtered_by_mean [of ?P "[[2, 4], [1 / 2, 5]]" 6 3 "1 / 2" _ "[[1, 1], [0, 2]]"
     "[[Num (1 / 3), Num (7 / 9)], [Num 0, Num 1]]" "[[Num (1 / 3), Num (7 / 9)], [Num 0, Num 1]]"
     "[[1, 1], [2, 3]]" "[[1, 1], [0, 3]]"]
  have a: "support [[1, 1], [0, 2]] =
     support (surviving [[1, 1], [2, 3]] [[Num 2, Num 4], [Num (1 / 2), Num 5]] 1)"
    using conjunct1 [OF t, THEN mp, OF r] unfolding w by auto
  have b: "support [[1, 1], [0, 2]] =
     support (surviving [[1, 1], [0, 3]] [[Num (1 / 3), Num (7 / 9)], [Num 0, Num 1]] (1 / 2))"
    using conjunct2 [OF t', THEN mp, OF d] unfolding n by auto
  show ?thesis using r d a b by blast
qed

section \<open>Degenerate input and failures\<close>

text \<open>The claim C6 as stated (a flat image makes the normalization signal an error) fails:
  the division is performed and yields NaN at every pixel.\<close>

theorem normalize_flat_counterexample:
  "normalize [[1, 1], [1, 1]] = Inr [[NaN, NaN], [NaN, NaN]]"
  by code_simp

text \<open>
  Claim C6, as the code has it. For every non-empty flat image (maximum equal to minimum)
  the normalization step of the demo script raises nothing: it divides zero by zero at
  every pixel and yields an image of NaN.
\<close>

theorem normalize_flat_nan:
  assumes "concat img \<noteq> []" and "Max (set (concat img)) = Min (set (concat img))"
  shows "normalize img = Inr (map (map (\<lambda>x. NaN)) img)"
proof -
  let ?S = "set (concat img)"
  have fin: "finite ?S" and ne: "?S \<noteq> {}" using assms(1) by simp_all
  have eq: "x = Min ?S" if "x \<in> ?S" for x
  proof -
    have "Min ?S \<le> x" "x \<le> Max ?S" using fin that by simp_all
    then show ?thesis using assms(2) by simp
  qed
  have "map (map (\<lambda>x. np_div (x - Min ?S) (Max ?S - Min ?S))) img = map (map (\<lambda>x. NaN)) img"
  proof (rule map_cong [OF refl], rule map_cong [OF refl])
    fix row x assume "row \<in> set img" "x \<in> set row"
    then have "x \<in> ?S" by auto
    then show "np_div (x - Min ?S) (Max ?S - Min ?S) = NaN"
      using eq assms(2) by (simp add: np_div_def)
  qed
  then show ?thesis using assms(1) by (simp add: normalize_def Let_def)
qed

theorem normalize_flat_nan_witness:
  "normalize [[7, 7, 7]] = Inr [[NaN, NaN, NaN]]"
proof -
  have a: "concat [[7, 7, 7 :: real]] \<noteq> []" by simp
  have b: "Max (set (concat [[7, 7, 7 :: real]])) = Min (set (concat [[7, 7, 7 :: real]]))" by simp
  show ?thesis using normalize_flat_nan [OF a b] by simp
qed

text \<open>
  In the batch script an exception inside the \<open>try\<close> always reaches the caller as
  UnboundLocalError, and a returned label map means that nothing was caught.
\<close>

lemma batch_failure_raises:
  "caught (cell_segmentation P img ss os t) = Some e \<Longrightarrow>
   returned (cell_segmentation P img ss os t) = Inl UnboundLocalError"
  by (auto simp: cell_segmentation_def split: sum.splits)

lemma batch_return_clean:
  "returned (cell_segmentation P img ss os t) = Inr fl \<Longrightarrow>
   caught (cell_segmentation P img ss os t) = None"
  by (auto simp: cell_segmentation_def split: sum.splits)

text \<open>
  The demo script is different. When the watershed output has no positive label, the list
  \<open>intensities\<close> is empty and \<open>min(intensities)\<close> raises ValueError after
  \<open>filtered_labels\<close> is bound: the exception is caught and logged as an error of the
  segmentation, and the all-background map is returned to the caller.
\<close>

lemma demo_returns_after_failure:
  assumes "returned (demo_cell_segmentation P img ss os t) = Inr (fl, sb, ob, spots, outlines)"
    and "\<forall>v \<in> set (concat outlines). v \<le> 0"
  shows "caught (demo_cell_segmentation P img ss os t) = Some ValueError"
    and "\<forall>v \<in> set (concat fl). v = 0"
proof -
  have "filter (\<lambda>v. 0 < v) (concat outlines) = []"
    unfolding filter_empty_conv using assms(2) by fastforce
  then have nl: "region_labels outlines = []" by (simp add: region_labels_def)
  from demo_cell_segmentation_Inr [OF assms(1)] obtain nimg where
    rl: "relabel_sequential (surviving outlines nimg t) = Inr fl" and
    ca: "caught (demo_cell_segmentation P img ss os t) =
           (if region_labels outlines = [] then Some ValueError else None)" by blast
  show "caught (demo_cell_segmentation P img ss os t) = Some ValueError" using ca nl by simp
  note f = relabel_sequential_facts [OF rl surviving_nonneg]
  have "positive_values (surviving outlines nimg t) = {}"
    unfolding positive_values_surviving using assms(2) by fastforce
  then have "positive_values fl = {}" using f(2) by simp
  then show "\<forall>v \<in> set (concat fl). v = 0" using f(3) by (fastforce simp: positive_values_def)
qed

text \<open>
  Claim C4 at a failing input. On the flat image \<open>[[1, 1], [1, 1]]\<close> the demo's
  \<open>cell_segmentation\<close> normalizes to NaN, so the watershed mask is empty and there is no
  region; the ValueError of \<open>min(intensities)\<close> is caught and logged, and the caller gets
  an all-background label map instead of an error.
\<close>

theorem demo_flat_image_returns_map:
  "demo_cell_segmentation (stub_skimage [[1, 0], [0, 0]]) [[1, 1], [1, 1]] 6 3 (1 / 50) =
     \<lparr>caught = Some ValueError,
      returned = Inr ([[0, 0], [0, 0]], [[NaN, NaN], [NaN, NaN]], [[NaN, NaN], [NaN, NaN]],
                      [[1, 0], [0, 0]], [[0, 0], [0, 0]])\<rparr>"
  by code_simp

end
